theory Spec2Isabelle
  imports Main "HOL-Library.AList" "HOL-Library.List_Lexorder"
begin

section \<open>Python strings\<close>

text \<open>
  A Python \<open>str\<close> is a sequence of Unicode code points: \<open>len\<close> counts code points
  and \<open>sorted\<close> compares strings code point by code point, a proper prefix being
  smaller. A string is therefore a list of code points, each a natural number, and its
  order is the lexicographic order on lists.
\<close>

type_synonym pystr = "nat list"

text \<open>An ASCII literal of the source, as code points.\<close>

definition ascii :: "string \<Rightarrow> pystr" where
  "ascii s = map of_char s"

text \<open>
  The code points that \<open>str.isspace\<close> accepts; \<open>str.strip()\<close> and \<open>str.split()\<close>
  without a separator use the same table.
\<close>

definition isspace :: "nat \<Rightarrow> bool" where
  "isspace c \<longleftrightarrow>
     (9 \<le> c \<and> c \<le> 13) \<or> (28 \<le> c \<and> c \<le> 32) \<or> c = 133 \<or> c = 160 \<or> c = 5760 \<or>
     (8192 \<le> c \<and> c \<le> 8202) \<or> c = 8232 \<or> c = 8233 \<or> c = 8239 \<or> c = 8287 \<or>
     c = 12288"

abbreviation nonspace :: "nat \<Rightarrow> bool" where
  "nonspace \<equiv> (\<lambda>c. \<not> isspace c)"

text \<open>\<open>s.lstrip()\<close>, \<open>s.rstrip()\<close> and \<open>s.strip()\<close>.\<close>

definition lstrip :: "pystr \<Rightarrow> pystr" where
  "lstrip s = dropWhile isspace s"

definition rstrip :: "pystr \<Rightarrow> pystr" where
  "rstrip s = rev (dropWhile isspace (rev s))"

definition strip :: "pystr \<Rightarrow> pystr" where
  "strip s = rstrip (lstrip s)"

text \<open>
  \<open>s.split(maxsplit=n)\<close>: up to \<open>n\<close> times, skip the whitespace and cut the run of
  non-whitespace that follows; when the limit is reached, skip the whitespace once more
  and take what is left, up to the end of the string, as the last item.
\<close>

fun split_maxsplit :: "nat \<Rightarrow> pystr \<Rightarrow> pystr list" where
  "split_maxsplit 0 s =
     (let r = dropWhile isspace s in if r = [] then [] else [r])"
| "split_maxsplit (Suc n) s =
     (let r = dropWhile isspace s in
      if r = [] then []
      else takeWhile nonspace r # split_maxsplit n (dropWhile nonspace r))"

text \<open>\<open>s.ljust(w)\<close>, the format \<open>{s:<{w}}\<close>: pad with spaces on the right, never cut.\<close>

definition ljust :: "pystr \<Rightarrow> nat \<Rightarrow> pystr" where
  "ljust s w = s @ replicate (w - length s) 32"

text \<open>\<open>str(n)\<close> for an integer: decimal digits, with a minus sign when negative.\<close>

fun digits :: "nat \<Rightarrow> pystr" where
  "digits n = (if n < 10 then [48 + n] else digits (n div 10) @ [48 + n mod 10])"

declare digits.simps [simp del]

definition str_int :: "int \<Rightarrow> pystr" where
  "str_int i = (if i < 0 then 45 # digits (nat (- i)) else digits (nat i))"

section \<open>The log analyser\<close>

record LogEntry =
  date :: pystr
  time :: pystr
  level :: pystr
  message :: pystr

type_synonym LogList = "LogEntry list"

text \<open>
  A \<open>dict\<close> keeps its keys in insertion order; it is an association list, whose keys
  are distinct in every dictionary the program builds.
\<close>

type_synonym LogCounts = "(pystr \<times> int) list"

datatype error = ValueError pystr

definition parse_log_line :: "pystr \<Rightarrow> error + LogEntry" where
  "parse_log_line line =
     (let parts = split_maxsplit 3 (strip line) in
      if length parts < 4 then Inl (ValueError (ascii ''Invalid log format: '' @ line))
      else Inr \<lparr>date = parts ! 0, time = parts ! 1, level = parts ! 2,
                message = parts ! 3\<rparr>)"

text \<open>
  \<open>load_logs\<close> on the lines the opened file yields. The comprehension tests
  \<open>line.strip()\<close> and parses line by line; an exception of the parser leaves it at
  once, so the list built so far is lost.
\<close>

fun load_logs :: "pystr list \<Rightarrow> error + LogList" where
  "load_logs [] = Inr []"
| "load_logs (line # lines) =
     (if strip line \<noteq> [] then
        (case parse_log_line line of
           Inl e \<Rightarrow> Inl e
         | Inr entry \<Rightarrow>
             (case load_logs lines of
                Inl e \<Rightarrow> Inl e
              | Inr entries \<Rightarrow> Inr (entry # entries)))
      else load_logs lines)"

text \<open>
  \<open>str.upper\<close> follows the Unicode case tables, which are no part of the program: the
  functions that call it take it as the parameter \<open>upper\<close>.
\<close>

definition filter_logs_by_level :: "(pystr \<Rightarrow> pystr) \<Rightarrow> LogList \<Rightarrow> pystr \<Rightarrow> LogList" where
  "filter_logs_by_level upper logs lvl =
     (let lvl = upper lvl in filter (\<lambda>log. level log = lvl) logs)"

text \<open>
  \<open>Counter(iterable)\<close> runs through the items and adds one to the count of each, a
  key that is new entering at the end with the count 1.
\<close>

definition counter_add :: "LogCounts \<Rightarrow> pystr \<Rightarrow> LogCounts" where
  "counter_add c k =
     AList.update k (case map_of c k of None \<Rightarrow> 1 | Some n \<Rightarrow> n + 1) c"

definition count_logs_by_level :: "LogList \<Rightarrow> LogCounts" where
  "count_logs_by_level logs = foldl counter_add [] (map level logs)"

text \<open>\<open>max(..., default=0)\<close> over the lengths of the keys.\<close>

definition calculate_level_width :: "LogCounts \<Rightarrow> pystr \<Rightarrow> nat" where
  "calculate_level_width counts header =
     (let longest_level = foldr max (map (\<lambda>(lvl, _). length lvl) counts) 0
      in max (length header) longest_level)"

text \<open>
  Every printing function returns the list of the strings it hands to \<open>print\<close>, one
  per call, in order.
\<close>

definition print_table_header :: "pystr \<Rightarrow> pystr \<Rightarrow> nat \<Rightarrow> pystr list" where
  "print_table_header level_header count_header level_width =
     [ljust level_header level_width @ ascii '' | '' @ count_header,
      replicate level_width 45 @ ascii ''-|'' @ replicate (length count_header + 1) 45]"

text \<open>
  \<open>counts[level]\<close>. The rows look up keys of the dictionary only, and the dictionary
  that \<open>main\<close> passes is a \<open>Counter\<close>, where a missing key reads 0.
\<close>

definition getitem :: "LogCounts \<Rightarrow> pystr \<Rightarrow> int" where
  "getitem counts k = (case map_of counts k of Some n \<Rightarrow> n | None \<Rightarrow> 0)"

definition print_table_rows :: "LogCounts \<Rightarrow> nat \<Rightarrow> pystr list" where
  "print_table_rows counts level_width =
     map (\<lambda>lvl. ljust lvl level_width @ ascii '' | '' @ str_int (getitem counts lvl))
       (sort (map fst counts))"

definition header_level :: pystr where
  "header_level = [1056, 1110, 1074, 1077, 1085, 1100, 32, 1083, 1086, 1075, 1091, 1074,
     1072, 1085, 1085, 1103]"

definition header_count :: pystr where
  "header_count = [1050, 1110, 1083, 1100, 1082, 1110, 1089, 1090, 1100]"

definition display_log_counts :: "LogCounts \<Rightarrow> pystr list" where
  "display_log_counts counts =
     (let level_width = calculate_level_width counts header_level in
      print_table_header header_level header_count level_width @
      print_table_rows counts level_width)"

text \<open>The two messages of the detail view, up to the opening quote of the level.\<close>

definition no_entries_text :: pystr where
  "no_entries_text = [10, 1053, 1077, 1084, 1072, 1108, 32, 1079, 1072, 1087, 1080, 1089,
     1110, 1074, 32, 1076, 1083, 1103, 32, 1088, 1110, 1074, 1085, 1103, 32, 39]"

definition details_text :: pystr where
  "details_text = [10, 1044, 1077, 1090, 1072, 1083, 1110, 32, 1083, 1086, 1075, 1110,
     1074, 32, 1076, 1083, 1103, 32, 1088, 1110, 1074, 1085, 1103, 32, 39]"

definition format_log :: "LogEntry \<Rightarrow> pystr" where
  "format_log log = date log @ ascii '' '' @ time log @ ascii '' - '' @ message log"

definition display_filtered_logs :: "(pystr \<Rightarrow> pystr) \<Rightarrow> LogList \<Rightarrow> pystr \<Rightarrow> pystr list" where
  "display_filtered_logs upper logs lvl =
     (let lvl = upper lvl in
      if logs = [] then [no_entries_text @ lvl @ [39, 46]]
      else (details_text @ lvl @ [39, 58]) # map format_log logs)"


section \<open>Notions of the specification\<close>

text \<open>
  The whitespace-delimited tokens of a string: its maximal runs of characters that are
  not whitespace, from left to right.
\<close>

function tokens :: "pystr \<Rightarrow> pystr list" where
  "tokens s =
     (if dropWhile isspace s = [] then []
      else takeWhile nonspace (dropWhile isspace s) #
           tokens (dropWhile nonspace (dropWhile isspace s)))"
  by pat_completeness auto
termination
proof (relation "measure length")
  fix s :: pystr
  assume ne: "dropWhile isspace s \<noteq> []"
  then obtain x r where r: "dropWhile isspace s = x # r"
    by (cases "dropWhile isspace s") auto
  with ne have "\<not> isspace x"
    using hd_dropWhile[of isspace s] by simp
  then have "length (dropWhile nonspace (x # r)) \<le> length r"
    by (simp add: length_dropWhile_le)
  moreover have "length (x # r) \<le> length s"
    using r length_dropWhile_le[of isspace s] by simp
  ultimately show "(dropWhile nonspace (dropWhile isspace s), s) \<in> measure length"
    using r by simp
qed simp

declare tokens.simps [simp del]

text \<open>
  What is left of a line after its third token: skip three times the whitespace and
  the token behind it, then the whitespace that separates the third token from the rest.
\<close>

definition skip_token :: "pystr \<Rightarrow> pystr" where
  "skip_token s = dropWhile nonspace (dropWhile isspace s)"

definition after_third_token :: "pystr \<Rightarrow> pystr" where
  "after_third_token line = dropWhile isspace (skip_token (skip_token (skip_token line)))"

text \<open>
  On a string of ASCII characters \<open>str.upper\<close> replaces each of \<open>a\<close> to \<open>z\<close> by its
  capital and keeps the rest. The examples, which are ASCII, run with this instance of
  the parameter \<open>upper\<close>.
\<close>

definition upper_ascii :: "pystr \<Rightarrow> pystr" where
  "upper_ascii s = map (\<lambda>c. if 97 \<le> c \<and> c \<le> 122 then c - 32 else c) s"

text \<open>The three lines of the specification's scenarios and the entries they parse to.\<close>

definition sample_lines :: "pystr list" where
  "sample_lines =
     [ascii ''2024-01-01 10:00:00 INFO Service started'',
      ascii ''2024-01-01 10:05:00 ERROR Disk full'',
      ascii ''2024-01-01 10:06:00 ERROR Disk full again'']"

definition sample_entries :: LogList where
  "sample_entries =
     [\<lparr>date = ascii ''2024-01-01'', time = ascii ''10:00:00'', level = ascii ''INFO'',
       message = ascii ''Service started''\<rparr>,
      \<lparr>date = ascii ''2024-01-01'', time = ascii ''10:05:00'', level = ascii ''ERROR'',
       message = ascii ''Disk full''\<rparr>,
      \<lparr>date = ascii ''2024-01-01'', time = ascii ''10:06:00'', level = ascii ''ERROR'',
       message = ascii ''Disk full again''\<rparr>]"

text \<open>A line of three tokens, and inputs built around the sample.\<close>

definition short_line :: pystr where
  "short_line = ascii ''2024-01-01 10:00:00 INFO''"

definition trailing_line :: pystr where
  "trailing_line = ascii ''2024-01-01 10:05:00 ERROR Disk  full  ''"

definition broken_lines :: "pystr list" where
  "broken_lines =
     [ascii ''2024-01-01 10:00:00 INFO Service started'', short_line,
      ascii ''2024-01-01 10:05:00 ERROR Disk full'']"

definition blank_lines :: "pystr list" where
  "blank_lines = [[], [10], ascii ''   '', [9, 32, 13, 10]]"

definition spaced_lines :: "pystr list" where
  "spaced_lines =
     [[10], ascii ''2024-01-01 10:00:00 INFO Service started'', ascii ''  '',
      ascii ''2024-01-01 10:05:00 ERROR Disk full'',
      ascii ''2024-01-01 10:06:00 ERROR Disk full again'', []]"

section \<open>Strings: stripping and splitting\<close>

lemmas str_eval = ascii_def strip_def lstrip_def rstrip_def isspace_def Let_def

lemma tokens_Nil: "tokens [] = []"
  by (subst tokens.simps) simp

lemma tokens_Cons:
  "tokens (c # s) =
     (if isspace c then tokens s
      else takeWhile nonspace (c # s) # tokens (dropWhile nonspace (c # s)))"
  using tokens.simps[of "c # s"] tokens.simps[of s] by simp

lemmas tokens_eval = tokens_Nil tokens_Cons

lemma takeWhile_token_nonempty:
  "dropWhile isspace s \<noteq> [] \<Longrightarrow> takeWhile nonspace (dropWhile isspace s) \<noteq> []"
  using hd_dropWhile[of isspace s] by (cases "dropWhile isspace s") auto

text \<open>Every token is a non-empty run without whitespace.\<close>

lemma tokens_items:
  "t \<in> set (tokens s) \<Longrightarrow> t \<noteq> [] \<and> list_all nonspace t"
proof (induction s rule: tokens.induct)
  case (1 s)
  show ?case
  proof (cases "dropWhile isspace s = []")
    case True
    with "1.prems" show ?thesis by (simp add: tokens.simps[of s])
  next
    case False
    let ?tok = "takeWhile nonspace (dropWhile isspace s)"
    let ?rest = "dropWhile nonspace (dropWhile isspace s)"
    from False have unfolded: "tokens s = ?tok # tokens ?rest"
      by (simp add: tokens.simps[of s])
    show ?thesis
    proof (cases "t = ?tok")
      case True
      have "list_all nonspace ?tok"
        by (auto simp: list_all_iff dest: set_takeWhileD)
      with True takeWhile_token_nonempty[OF False] show ?thesis by simp
    next
      case other: False
      with "1.prems" unfolded have "t \<in> set (tokens ?rest)" by simp
      with False show ?thesis by (rule "1.IH")
    qed
  qed
qed

lemma length_split_maxsplit:
  "length (split_maxsplit n s) = min (Suc n) (length (tokens s))"
proof (induction n arbitrary: s)
  case 0
  show ?case by (subst tokens.simps) (simp add: Let_def)
next
  case (Suc n)
  show ?case by (subst tokens.simps) (simp add: Let_def Suc)
qed

lemma split_maxsplit_nonempty: "[] \<notin> set (split_maxsplit n s)"
proof (induction n arbitrary: s)
  case 0
  show ?case
    by (cases "dropWhile isspace s = []") (simp_all add: Let_def del: dropWhile_eq_Nil_conv)
next
  case (Suc n)
  show ?case
  proof (cases "dropWhile isspace s = []")
    case True
    then show ?thesis by (simp add: Let_def)
  next
    case False
    have "split_maxsplit (Suc n) s = takeWhile nonspace (dropWhile isspace s) #
        split_maxsplit n (dropWhile nonspace (dropWhile isspace s))"
      using False by (simp add: Let_def)
    then show ?thesis
      using takeWhile_token_nonempty[OF False] Suc[of "dropWhile nonspace (dropWhile isspace s)"]
      by (simp del: split_maxsplit.simps)
  qed
qed

lemma rstrip_Nil [simp]: "rstrip [] = []"
  by (simp add: rstrip_def)

lemma rstrip_Cons:
  "rstrip (x # xs) = (if isspace x \<and> rstrip xs = [] then [] else x # rstrip xs)"
  by (auto simp: rstrip_def dropWhile_append)

lemma dropWhile_rstrip: "dropWhile P (rstrip s) = rstrip (dropWhile P s)"
  by (induction s) (auto simp: rstrip_Cons)

lemma takeWhile_nonspace_rstrip: "takeWhile nonspace (rstrip s) = takeWhile nonspace s"
  by (induction s) (auto simp: rstrip_Cons)

lemma rstrip_token_rest:
  "dropWhile isspace s \<noteq> [] \<Longrightarrow> rstrip (dropWhile isspace s) \<noteq> []"
  using hd_dropWhile[of isspace s] by (cases "dropWhile isspace s") (auto simp: rstrip_Cons)

lemma tokens_rstrip: "tokens (rstrip s) = tokens s"
proof (induction s rule: tokens.induct)
  case (1 s)
  show ?case
  proof (cases "dropWhile isspace s = []")
    case True
    then show ?thesis
      by (subst tokens.simps, subst (2) tokens.simps)
         (simp add: dropWhile_rstrip del: dropWhile_eq_Nil_conv)
  next
    case False
    with 1 have IH: "tokens (rstrip (dropWhile nonspace (dropWhile isspace s))) =
        tokens (dropWhile nonspace (dropWhile isspace s))" by simp
    show ?thesis
      using False rstrip_token_rest[OF False] IH
      by (subst tokens.simps, subst (2) tokens.simps)
         (simp add: dropWhile_rstrip takeWhile_nonspace_rstrip del: dropWhile_eq_Nil_conv)
  qed
qed

lemma tokens_lstrip: "tokens (lstrip s) = tokens s"
  by (subst tokens.simps, subst (2) tokens.simps)
     (simp add: lstrip_def dropWhile_idem del: dropWhile_eq_Nil_conv)

lemma tokens_strip: "tokens (strip s) = tokens s"
  by (simp add: strip_def tokens_rstrip tokens_lstrip)

lemma after_third_token_strip: "after_third_token (strip s) = rstrip (after_third_token s)"
  by (simp add: after_third_token_def skip_token_def strip_def lstrip_def dropWhile_rstrip
      dropWhile_idem)

lemma split_maxsplit_last:
  "length (split_maxsplit n s) = Suc n \<Longrightarrow>
   split_maxsplit n s ! n = dropWhile isspace ((skip_token ^^ n) s)"
proof (induction n arbitrary: s)
  case 0
  then show ?case
    by (cases "dropWhile isspace s = []") (simp_all add: Let_def del: dropWhile_eq_Nil_conv)
next
  case (Suc n)
  show ?case
  proof (cases "dropWhile isspace s = []")
    case True
    with Suc.prems show ?thesis by (simp add: Let_def del: dropWhile_eq_Nil_conv)
  next
    case False
    then have eq: "split_maxsplit (Suc n) s = takeWhile nonspace (dropWhile isspace s) #
        split_maxsplit n (skip_token s)"
      by (simp add: Let_def skip_token_def del: dropWhile_eq_Nil_conv)
    with Suc.prems have "length (split_maxsplit n (skip_token s)) = Suc n" by simp
    then have "split_maxsplit n (skip_token s) ! n =
        dropWhile isspace ((skip_token ^^ n) (skip_token s))"
      by (rule Suc.IH)
    then show ?thesis by (simp add: eq funpow_swap1 del: split_maxsplit.simps)
  qed
qed

section \<open>The sample, evaluated\<close>

lemma parse_short_line:
  "parse_log_line short_line = Inl (ValueError (ascii ''Invalid log format: '' @ short_line))"
  by (simp add: short_line_def parse_log_line_def numeral_3_eq_3 str_eval)

lemma strip_short_line: "strip short_line \<noteq> []"
  by (simp add: short_line_def str_eval)

lemma load_sample: "load_logs sample_lines = Inr sample_entries"
  by (simp add: sample_lines_def sample_entries_def parse_log_line_def numeral_3_eq_3 str_eval)

lemma count_sample:
  "count_logs_by_level sample_entries = [(ascii ''INFO'', 1), (ascii ''ERROR'', 2)]"
  by (simp add: sample_entries_def count_logs_by_level_def counter_add_def ascii_def)

lemma filter_sample_info:
  "filter_logs_by_level upper_ascii sample_entries (ascii ''info'') =
     [\<lparr>date = ascii ''2024-01-01'', time = ascii ''10:00:00'', level = ascii ''INFO'',
       message = ascii ''Service started''\<rparr>]"
  by (simp add: filter_logs_by_level_def upper_ascii_def sample_entries_def ascii_def Let_def)

lemma filter_sample_error:
  "length (filter_logs_by_level upper_ascii sample_entries (ascii ''ERROR'')) = 2"
  by (simp add: filter_logs_by_level_def upper_ascii_def sample_entries_def ascii_def Let_def)

text \<open>
  Scenario 1: the count table of the sample, under the headers of the program, lists
  \<open>ERROR\<close> with 2 before \<open>INFO\<close> with 1.
\<close>

lemma display_sample_counts:
  "display_log_counts (count_logs_by_level sample_entries) =
     [header_level @ ascii '' | '' @ header_count,
      ascii ''-----------------|----------'',
      ascii ''ERROR            | 2'',
      ascii ''INFO             | 1'']"
  by (simp add: count_sample display_log_counts_def calculate_level_width_def
      print_table_header_def print_table_rows_def getitem_def ljust_def str_int_def
      digits.simps header_level_def header_count_def ascii_def)

section \<open>The line parser\<close>

text \<open>
  C1. A line that, once stripped of leading and trailing whitespace, has fewer than four
  whitespace-delimited tokens makes \<open>parse_log_line\<close> raise the error whose message
  carries the raw line as it was given; a line with four tokens or more yields an entry.
\<close>

theorem parse_log_line_tokens:
  "(length (tokens (strip line)) < 4 \<longrightarrow>
      parse_log_line line = Inl (ValueError (ascii ''Invalid log format: '' @ line))) \<and>
   (4 \<le> length (tokens (strip line)) \<longrightarrow> (\<exists>entry. parse_log_line line = Inr entry))"
  by (simp add: parse_log_line_def Let_def length_split_maxsplit)

theorem parse_log_line_tokens_witness:
  "length (tokens (strip short_line)) < 4 \<and>
   parse_log_line short_line = Inl (ValueError (ascii ''Invalid log format: '' @ short_line)) \<and>
   4 \<le> length (tokens (strip trailing_line)) \<and>
   (\<exists>entry. parse_log_line trailing_line = Inr entry)"
proof -
  have few: "length (tokens (strip short_line)) < 4"
    by (simp add: short_line_def str_eval tokens_eval)
  have many: "4 \<le> length (tokens (strip trailing_line))"
    by (simp add: trailing_line_def str_eval tokens_eval)
  show ?thesis
    using few many parse_log_line_tokens[of short_line] parse_log_line_tokens[of trailing_line]
    by blast
qed

text \<open>
  C9. Whenever \<open>parse_log_line\<close> returns an entry, its date, time, level and message
  are all non-empty, and the stripped line had at least four tokens: no entry with
  defaulted fields comes out of a shorter line.
\<close>

theorem parse_log_line_fields:
  assumes "parse_log_line line = Inr entry"
  shows "date entry \<noteq> [] \<and> time entry \<noteq> [] \<and> level entry \<noteq> [] \<and> message entry \<noteq> [] \<and>
         4 \<le> length (tokens (strip line))"
proof -
  let ?parts = "split_maxsplit 3 (strip line)"
  from assms have len: "\<not> length ?parts < 4"
    by (auto simp: parse_log_line_def Let_def split: if_splits)
  with assms have entry: "entry = \<lparr>date = ?parts ! 0, time = ?parts ! 1, level = ?parts ! 2,
      message = ?parts ! 3\<rparr>"
    by (simp add: parse_log_line_def Let_def)
  have "?parts ! i \<noteq> []" if "i < 4" for i
  proof -
    from that len have "?parts ! i \<in> set ?parts" by simp
    then show ?thesis using split_maxsplit_nonempty[of 3 "strip line"] by metis
  qed
  then have "?parts ! 0 \<noteq> []" "?parts ! 1 \<noteq> []" "?parts ! 2 \<noteq> []" "?parts ! 3 \<noteq> []"
    by simp_all
  moreover from len have "4 \<le> length (tokens (strip line))"
    by (simp add: length_split_maxsplit)
  ultimately show ?thesis by (simp add: entry)
qed

theorem parse_log_line_fields_witness:
  "parse_log_line trailing_line =
     Inr \<lparr>date = ascii ''2024-01-01'', time = ascii ''10:05:00'', level = ascii ''ERROR'',
           message = ascii ''Disk  full''\<rparr> \<and>
   ascii ''2024-01-01'' \<noteq> [] \<and> ascii ''10:05:00'' \<noteq> [] \<and> ascii ''ERROR'' \<noteq> [] \<and>
   ascii ''Disk  full'' \<noteq> [] \<and> 4 \<le> length (tokens (strip trailing_line))"
proof -
  have parsed: "parse_log_line trailing_line =
     Inr \<lparr>date = ascii ''2024-01-01'', time = ascii ''10:05:00'', level = ascii ''ERROR'',
           message = ascii ''Disk  full''\<rparr>"
    by (simp add: trailing_line_def parse_log_line_def numeral_3_eq_3 str_eval)
  show ?thesis
    using parsed parse_log_line_fields[OF parsed] by simp
qed

text \<open>
  C3, as the claim states it: the message would be the content of the line after its
  third token, whitespace kept as it is. It is not so on a line that ends in whitespace:
  the line is stripped before it is split, so the two blanks that end the sample line
  are in the content after the third token and not in the message.
\<close>

theorem trailing_whitespace_dropped:
  "4 \<le> length (tokens trailing_line) \<and>
   parse_log_line trailing_line =
     Inr \<lparr>date = ascii ''2024-01-01'', time = ascii ''10:05:00'', level = ascii ''ERROR'',
           message = ascii ''Disk  full''\<rparr> \<and>
   after_third_token trailing_line = ascii ''Disk  full  '' \<and>
   ascii ''Disk  full'' \<noteq> after_third_token trailing_line"
  by (simp add: trailing_line_def parse_log_line_def numeral_3_eq_3 after_third_token_def
      skip_token_def str_eval tokens_eval)

text \<open>
  C3, amended. For a line of at least four tokens the message is the content of the
  line after its third token and the whitespace behind that token, with the trailing
  whitespace of the line removed; the whitespace inside the message stays as it is,
  and the message is not split further.
\<close>

theorem parse_log_line_message:
  assumes "4 \<le> length (tokens line)"
  shows "\<exists>entry. parse_log_line line = Inr entry \<and>
           message entry = rstrip (after_third_token line)"
proof -
  let ?parts = "split_maxsplit 3 (strip line)"
  from assms have len: "length ?parts = Suc 3"
    by (simp add: length_split_maxsplit tokens_strip)
  then have "?parts ! 3 = dropWhile isspace ((skip_token ^^ 3) (strip line))"
    by (rule split_maxsplit_last)
  also have "\<dots> = after_third_token (strip line)"
    by (simp add: after_third_token_def numeral_3_eq_3)
  finally have "?parts ! 3 = rstrip (after_third_token line)"
    by (simp add: after_third_token_strip)
  with len show ?thesis by (simp add: parse_log_line_def Let_def)
qed

theorem parse_log_line_message_witness:
  "4 \<le> length (tokens trailing_line) \<and>
   (\<exists>entry. parse_log_line trailing_line = Inr entry \<and>
      message entry = rstrip (after_third_token trailing_line)) \<and>
   rstrip (after_third_token trailing_line) = ascii ''Disk  full''"
proof -
  have many: "4 \<le> length (tokens trailing_line)"
    by (simp add: trailing_line_def str_eval tokens_eval)
  have "rstrip (after_third_token trailing_line) = ascii ''Disk  full''"
    by (simp add: trailing_line_def after_third_token_def skip_token_def str_eval)
  then show ?thesis
    using many parse_log_line_message[OF many] by simp
qed

section \<open>The loader\<close>

lemma load_logs_map:
  "(load_logs lines = Inr entries) =
   (map parse_log_line (filter (\<lambda>line. strip line \<noteq> []) lines) = map Inr entries)"
proof (induction lines arbitrary: entries)
  case Nil
  show ?case by auto
next
  case (Cons line lines)
  let ?rest = "map parse_log_line (filter (\<lambda>line. strip line \<noteq> []) lines)"
  show ?case
  proof (cases "strip line = []")
    case True
    then show ?thesis using Cons by simp
  next
    case False
    show ?thesis
    proof (cases "parse_log_line line")
      case (Inl e)
      then show ?thesis using False by (auto simp: Cons_eq_map_conv)
    next
      case (Inr entry)
      have "(load_logs (line # lines) = Inr entries) =
            (\<exists>es. load_logs lines = Inr es \<and> entries = entry # es)"
        using False Inr by (auto split: sum.splits)
      also have "\<dots> = (\<exists>es. ?rest = map Inr es \<and> entries = entry # es)"
        using Cons by simp
      also have "\<dots> = (Inr entry # ?rest = map Inr entries)"
        by (auto simp: Cons_eq_map_conv)
      finally show ?thesis using False Inr by simp
    qed
  qed
qed

text \<open>
  C2. If any line that is not blank is malformed, \<open>load_logs\<close> fails: the lines split
  into those before the first such line, each blank or well-formed, that line, and the
  lines after it, whatever they are; the result is the error of that line and no list of
  entries, not even of the lines before it.
\<close>

theorem load_logs_aborts:
  assumes "l \<in> set lines" and "strip l \<noteq> []" and "parse_log_line l = Inl e0"
  shows "\<exists>pre bad post e. lines = pre @ bad # post \<and>
           (\<forall>x\<in>set pre. strip x = [] \<or> (\<exists>entry. parse_log_line x = Inr entry)) \<and>
           strip bad \<noteq> [] \<and> parse_log_line bad = Inl e \<and> load_logs lines = Inl e"
  using assms(1)
proof (induction lines)
  case Nil
  then show ?case by simp
next
  case (Cons line lines)
  show ?case
  proof (cases "strip line \<noteq> [] \<and> (\<exists>e. parse_log_line line = Inl e)")
    case True
    then obtain e where "parse_log_line line = Inl e" by blast
    with True have "line # lines = [] @ line # lines \<and>
        (\<forall>x\<in>set []. strip x = [] \<or> (\<exists>entry. parse_log_line x = Inr entry)) \<and>
        strip line \<noteq> [] \<and> parse_log_line line = Inl e \<and> load_logs (line # lines) = Inl e"
      by simp
    then show ?thesis by blast
  next
    case False
    then have ok: "strip line = [] \<or> (\<exists>entry. parse_log_line line = Inr entry)"
      by (cases "parse_log_line line") auto
    from False assms(2,3) have "l \<noteq> line" by auto
    with Cons.prems have "l \<in> set lines" by simp
    then obtain pre bad post e where IH: "lines = pre @ bad # post"
        "\<forall>x\<in>set pre. strip x = [] \<or> (\<exists>entry. parse_log_line x = Inr entry)"
        "strip bad \<noteq> []" "parse_log_line bad = Inl e" "load_logs lines = Inl e"
      using Cons.IH by blast
    from ok IH(5) have "load_logs (line # lines) = Inl e" by auto
    with ok IH have "line # lines = (line # pre) @ bad # post \<and>
        (\<forall>x\<in>set (line # pre). strip x = [] \<or> (\<exists>entry. parse_log_line x = Inr entry)) \<and>
        strip bad \<noteq> [] \<and> parse_log_line bad = Inl e \<and> load_logs (line # lines) = Inl e"
      by simp
    then show ?thesis by blast
  qed
qed

theorem load_logs_aborts_witness:
  "short_line \<in> set broken_lines \<and> strip short_line \<noteq> [] \<and>
   parse_log_line short_line = Inl (ValueError (ascii ''Invalid log format: '' @ short_line)) \<and>
   (\<exists>pre bad post e. broken_lines = pre @ bad # post \<and>
      (\<forall>x\<in>set pre. strip x = [] \<or> (\<exists>entry. parse_log_line x = Inr entry)) \<and>
      strip bad \<noteq> [] \<and> parse_log_line bad = Inl e \<and> load_logs broken_lines = Inl e)"
proof -
  have mem: "short_line \<in> set broken_lines"
    by (simp add: broken_lines_def)
  show ?thesis
    using mem strip_short_line parse_short_line
      load_logs_aborts[OF mem strip_short_line parse_short_line]
    by blast
qed

text \<open>
  C8. \<open>load_logs\<close> returns a list of entries exactly when the lines that are not empty
  after stripping parse, one by one and in their order, to these entries: the blank lines
  are left out and are no error. Lines that are all blank give the empty list.
\<close>

theorem load_logs_skips_blank:
  "((load_logs lines = Inr entries) =
      (map parse_log_line (filter (\<lambda>line. strip line \<noteq> []) lines) = map Inr entries)) \<and>
   ((\<forall>line\<in>set lines. strip line = []) \<longrightarrow> load_logs lines = Inr [])"
proof -
  have "load_logs lines = Inr []" if "\<forall>line\<in>set lines. strip line = []"
  proof -
    from that have "filter (\<lambda>line. strip line \<noteq> []) lines = []"
      by (simp add: filter_empty_conv)
    then show ?thesis by (simp add: load_logs_map)
  qed
  then show ?thesis using load_logs_map by blast
qed

theorem load_logs_skips_blank_witness:
  "list_all (\<lambda>line. strip line = []) blank_lines \<and> load_logs blank_lines = Inr [] \<and>
   filter (\<lambda>line. strip line \<noteq> []) spaced_lines = sample_lines \<and>
   load_logs spaced_lines = Inr sample_entries"
proof -
  have blank: "\<forall>line\<in>set blank_lines. strip line = []"
    by (simp add: blank_lines_def str_eval)
  have rest: "filter (\<lambda>line. strip line \<noteq> []) spaced_lines = sample_lines"
    by (simp add: spaced_lines_def sample_lines_def str_eval)
  have "map parse_log_line sample_lines = map Inr sample_entries"
    by (simp add: sample_lines_def sample_entries_def parse_log_line_def numeral_3_eq_3
        str_eval)
  then show ?thesis
    using blank rest load_logs_skips_blank[of blank_lines "[]"]
      load_logs_skips_blank[of spaced_lines sample_entries]
    by (simp add: list_all_iff)
qed


section \<open>Counting and filtering\<close>

lemma map_of_counter_add:
  "map_of (counter_add c k) =
   (map_of c)(k \<mapsto> (case map_of c k of None \<Rightarrow> 1 | Some n \<Rightarrow> n + 1))"
  by (simp add: counter_add_def update_conv')

lemma keys_counter_add: "fst ` set (counter_add c k) = insert k (fst ` set c)"
  by (simp add: counter_add_def dom_update)

lemma distinct_counter_add:
  "distinct (map fst c) \<Longrightarrow> distinct (map fst (counter_add c k))"
  by (simp add: counter_add_def distinct_update)

lemma sum_update:
  "sum_list (map snd (AList.update k v c)) =
   sum_list (map snd c) - (case map_of c k of None \<Rightarrow> 0 | Some n \<Rightarrow> n) + (v::int)"
  by (induction c) auto

lemma sum_counter_add:
  "sum_list (map snd (counter_add c k)) = sum_list (map snd c) + 1"
  by (simp add: counter_add_def sum_update split: option.split)

lemma foldl_counter_add_keys:
  "fst ` set (foldl counter_add c ks) = fst ` set c \<union> set ks"
  by (induction ks arbitrary: c) (auto simp: keys_counter_add)

lemma foldl_counter_add_distinct:
  "distinct (map fst c) \<Longrightarrow> distinct (map fst (foldl counter_add c ks))"
  by (induction ks arbitrary: c) (simp_all add: distinct_counter_add)

lemma foldl_counter_add_sum:
  "sum_list (map snd (foldl counter_add c ks)) = sum_list (map snd c) + int (length ks)"
  by (induction ks arbitrary: c) (simp_all add: sum_counter_add)

lemma foldl_counter_add_lookup:
  "map_of (foldl counter_add c ks) k =
   (if k \<in> set ks
    then Some ((case map_of c k of None \<Rightarrow> 0 | Some n \<Rightarrow> n) + int (count_list ks k))
    else map_of c k)"
proof (induction ks arbitrary: c)
  case Nil
  show ?case by simp
next
  case (Cons a ks)
  show ?case
    by (simp add: Cons map_of_counter_add split: option.split)
qed

lemma count_list_map_level:
  "count_list (map level logs) L = length (filter (\<lambda>log. level log = L) logs)"
  by (induction logs) simp_all

lemma count_logs_by_level_lookup:
  "map_of (count_logs_by_level logs) L =
     (if L \<in> level ` set logs
      then Some (int (length (filter (\<lambda>log. level log = L) logs))) else None)"
  by (simp add: count_logs_by_level_def foldl_counter_add_lookup count_list_map_level)

text \<open>
  C4. The keys of \<open>count_logs_by_level\<close> are, without repetition, exactly the levels
  that occur in the entries; the value at a level is the number of entries that bear it,
  and a level that does not occur has no key. The counts add up to the number of
  entries, and no entries give the empty dictionary.
\<close>

theorem count_logs_by_level_exact:
  "distinct (map fst (count_logs_by_level logs)) \<and>
   set (map fst (count_logs_by_level logs)) = level ` set logs \<and>
   (\<forall>L. map_of (count_logs_by_level logs) L =
      (if L \<in> level ` set logs
       then Some (int (length (filter (\<lambda>log. level log = L) logs))) else None)) \<and>
   sum_list (map snd (count_logs_by_level logs)) = int (length logs) \<and>
   count_logs_by_level [] = []"
proof -
  have "distinct (map fst (count_logs_by_level logs))"
    by (simp add: count_logs_by_level_def foldl_counter_add_distinct)
  moreover have "set (map fst (count_logs_by_level logs)) = level ` set logs"
    using foldl_counter_add_keys[of "[]" "map level logs"]
    by (simp add: count_logs_by_level_def)
  moreover have "sum_list (map snd (count_logs_by_level logs)) = int (length logs)"
    by (simp add: count_logs_by_level_def foldl_counter_add_sum)
  moreover have "count_logs_by_level [] = []"
    by (simp add: count_logs_by_level_def)
  ultimately show ?thesis
    using count_logs_by_level_lookup by blast
qed

theorem count_logs_by_level_exact_witness:
  "count_logs_by_level sample_entries = [(ascii ''INFO'', 1), (ascii ''ERROR'', 2)] \<and>
   set (map fst (count_logs_by_level sample_entries)) = level ` set sample_entries \<and>
   length (map fst (count_logs_by_level sample_entries)) = 2 \<and>
   sum_list (map snd (count_logs_by_level sample_entries)) = int (length sample_entries) \<and>
   length sample_entries = 3"
proof -
  have "length sample_entries = 3"
    by (simp add: sample_entries_def)
  then show ?thesis
    using count_logs_by_level_exact[of sample_entries] by (simp add: count_sample)
qed



text \<open>
  C10. For a level that is its own upper-casing, the count that
  \<open>count_logs_by_level\<close> holds for it, read as 0 when it is no key, is the number of
  entries that \<open>filter_logs_by_level\<close> selects for it.
\<close>

theorem count_agrees_with_filter:
  assumes "upper L = L"
  shows "(case map_of (count_logs_by_level logs) L of None \<Rightarrow> 0 | Some n \<Rightarrow> n) =
         int (length (filter_logs_by_level upper logs L))"
proof -
  have "L \<notin> level ` set logs \<Longrightarrow> filter (\<lambda>log. level log = L) logs = []"
    by (auto simp: filter_empty_conv)
  then show ?thesis
    using assms count_logs_by_level_lookup[of logs L]
    by (auto simp: filter_logs_by_level_def)
qed

theorem count_agrees_with_filter_witness:
  "upper_ascii (ascii ''ERROR'') = ascii ''ERROR'' \<and>
   (case map_of (count_logs_by_level sample_entries) (ascii ''ERROR'') of
      None \<Rightarrow> 0 | Some n \<Rightarrow> n) =
   int (length (filter_logs_by_level upper_ascii sample_entries (ascii ''ERROR''))) \<and>
   int (length (filter_logs_by_level upper_ascii sample_entries (ascii ''ERROR''))) = 2"
proof -
  have up: "upper_ascii (ascii ''ERROR'') = ascii ''ERROR''"
    by (simp add: upper_ascii_def ascii_def)
  show ?thesis
    using up filter_sample_error
      count_agrees_with_filter[of upper_ascii "ascii ''ERROR''" sample_entries]
    by simp
qed

section \<open>The reports\<close>










text \<open>
  C7, as the claim states it: a header line that names the level would be printed for
  every collection. For an empty collection the function prints the notice alone and
  returns before the header: the header line is not in the output.
\<close>

theorem display_filtered_logs_no_header:
  "display_filtered_logs upper_ascii [] (ascii ''WARNING'') =
     [no_entries_text @ ascii ''WARNING'' @ [39, 46]] \<and>
   details_text @ ascii ''WARNING'' @ [39, 58] \<notin>
     set (display_filtered_logs upper_ascii [] (ascii ''WARNING''))"
  by (simp add: display_filtered_logs_def upper_ascii_def ascii_def Let_def
      no_entries_text_def details_text_def)

text \<open>
  C7, amended. For an empty collection the detail view prints one line only, the
  notice that there are no entries, which names the upper-cased level, and no header.
  Otherwise it prints the header line that names the upper-cased level and then one line
  for each entry, in the order of the collection: the date, a blank, the time,
  \<open>" - "\<close> and the message, without the level. Scenario 2 is the witness.
\<close>

theorem display_filtered_logs_lines:
  "(logs = [] \<longrightarrow>
      display_filtered_logs upper logs lvl = [no_entries_text @ upper lvl @ [39, 46]]) \<and>
   (logs \<noteq> [] \<longrightarrow>
      display_filtered_logs upper logs lvl =
        (details_text @ upper lvl @ [39, 58]) #
        map (\<lambda>log. date log @ [32] @ time log @ [32, 45, 32] @ message log) logs)"
  by (simp add: display_filtered_logs_def format_log_def ascii_def Let_def)

theorem display_filtered_logs_lines_witness:
  "load_logs sample_lines = Inr sample_entries \<and>
   filter_logs_by_level upper_ascii sample_entries (ascii ''info'') \<noteq> [] \<and>
   display_filtered_logs upper_ascii
     (filter_logs_by_level upper_ascii sample_entries (ascii ''info'')) (ascii ''info'') =
     [details_text @ ascii ''INFO'' @ [39, 58],
      ascii ''2024-01-01 10:00:00 - Service started''] \<and>
   filter_logs_by_level upper_ascii sample_entries (ascii ''WARNING'') = [] \<and>
   display_filtered_logs upper_ascii
     (filter_logs_by_level upper_ascii sample_entries (ascii ''WARNING'')) (ascii ''WARNING'') =
     [no_entries_text @ ascii ''WARNING'' @ [39, 46]]"
proof -
  let ?info = "filter_logs_by_level upper_ascii sample_entries (ascii ''info'')"
  let ?warn = "filter_logs_by_level upper_ascii sample_entries (ascii ''WARNING'')"
  have ne: "?info \<noteq> []" by (simp add: filter_sample_info)
  have em: "?warn = []"
    by (simp add: filter_logs_by_level_def upper_ascii_def sample_entries_def ascii_def
        Let_def)
  have ui: "upper_ascii (ascii ''info'') = ascii ''INFO''"
    by (simp add: upper_ascii_def ascii_def)
  have uw: "upper_ascii (ascii ''WARNING'') = ascii ''WARNING''"
    by (simp add: upper_ascii_def ascii_def)
  have "display_filtered_logs upper_ascii ?info (ascii ''info'') =
      [details_text @ ascii ''INFO'' @ [39, 58],
       ascii ''2024-01-01 10:00:00 - Service started'']"
    using ne display_filtered_logs_lines[of ?info upper_ascii "ascii ''info''"]
    by (simp add: ui filter_sample_info) (simp add: ascii_def)
  moreover have "display_filtered_logs upper_ascii ?warn (ascii ''WARNING'') =
      [no_entries_text @ ascii ''WARNING'' @ [39, 46]]"
    using em display_filtered_logs_lines[of ?warn upper_ascii "ascii ''WARNING''"]
    by (simp add: uw)
  ultimately show ?thesis
    using load_sample ne em by simp
qed


end
